theory Spec2Isabelle
  imports Complex_Main "HOL-Library.Signed_Division"
begin

section \<open>The data model of nutility.h\<close>

text \<open>
  The header works on C++ \<open>int\<close> values. They are modelled as mathematical integers
  together with the predicate \<open>int32\<close> for the representable range; an arithmetic step
  of the source whose exact result leaves that range is undefined behaviour and is a
  branch of its own in the model (see \<open>isprime\<close>). Division and remainder of the
  source truncate towards zero: they are \<open>sdiv\<close> and \<open>smod\<close>.
\<close>

definition INT_MIN :: int where
  "INT_MIN = - 2147483648"

definition INT_MAX :: int where
  "INT_MAX = 2147483647"

definition int32 :: "int \<Rightarrow> bool" where
  "int32 v = (INT_MIN \<le> v \<and> v \<le> INT_MAX)"

subsection \<open>ndigit\<close>

text \<open>
  \<^verbatim>\<open>while (val != 0) { val /= 10; ++digit_count; }\<close>
  The loop is a recursive function on the pair of the two locals; its termination is
  proved with the measure \<open>\<bar>val\<bar>\<close>, which truncating division by ten decreases.
\<close>

function ndigit_loop :: "int \<Rightarrow> int \<Rightarrow> int" where
  "ndigit_loop val digit_count =
     (if val \<noteq> 0 then ndigit_loop (val sdiv 10) (digit_count + 1) else digit_count)"
  by pat_completeness auto
termination
proof (relation "measure (\<lambda>(val, digit_count). nat \<bar>val\<bar>)")
  show "wf (measure (\<lambda>(val, digit_count). nat \<bar>val\<bar>))" by simp
next
  fix val digit_count :: int
  assume "val \<noteq> 0"
  then have "\<bar>val sdiv 10\<bar> < \<bar>val\<bar>"
    by (simp add: signed_divide_int_def abs_mult abs_sgn_eq)
  then show "((val sdiv 10, digit_count + 1), (val, digit_count))
              \<in> measure (\<lambda>(val, digit_count). nat \<bar>val\<bar>)"
    by simp
qed

declare ndigit_loop.simps [simp del]

definition ndigit :: "int \<Rightarrow> int" where
  "ndigit val = (if val = 0 then 1 else ndigit_loop val 0)"

subsection \<open>isprime\<close>

text \<open>
  \<^verbatim>\<open>for (int k = 7; k * k <= val; k += 2) if (val % k == 0) return false;\<close>
  The product \<open>k * k\<close> is computed in \<open>int\<close>. Where its exact value is not an
  \<open>int\<close> the source has undefined behaviour (signed overflow): the model returns
  \<open>None\<close> there and \<open>Some\<close> of the returned \<open>bool\<close> otherwise. The increment
  \<open>k += 2\<close> is only reached with \<open>k * k \<le> INT_MAX\<close>, where it cannot overflow, and
  \<open>k\<close> is at least 7, so \<open>val % k\<close> never divides by zero. The loop is total: the
  overflow check bounds \<open>k\<close>, which the termination proof uses.
\<close>

function isprime_loop :: "int \<Rightarrow> int \<Rightarrow> bool option" where
  "isprime_loop val k =
     (if \<not> int32 (k * k) then None
      else if k * k \<le> val then
        (if val smod k = 0 then Some False else isprime_loop val (k + 2))
      else Some True)"
  by pat_completeness auto
termination
proof (relation "measure (\<lambda>(val, k). nat (46342 - k))")
  show "wf (measure (\<lambda>(val, k). nat (46342 - k)))" by simp
next
  fix val k :: int
  assume rng: "\<not> \<not> int32 (k * k)"
  have "\<not> 46341 \<le> \<bar>k\<bar>"
  proof
    assume "46341 \<le> \<bar>k\<bar>"
    then have "46341 * 46341 \<le> \<bar>k\<bar> * \<bar>k\<bar>"
      by (intro mult_mono) simp_all
    then have "2147488281 \<le> k * k" by (simp add: abs_mult_self_eq)
    with rng show False by (simp add: int32_def INT_MAX_def)
  qed
  then have "\<bar>k\<bar> < 46341" by linarith
  then show "((val, k + 2), (val, k)) \<in> measure (\<lambda>(val, k). nat (46342 - k))"
    by simp
qed

declare isprime_loop.simps [simp del]

text \<open>
  The body of \<open>isprime\<close>, with its early returns in the source's order.
\<close>

definition isprime :: "int \<Rightarrow> bool option" where
  "isprime val =
     (if val < 2 then Some False
      else if val smod 2 = 0 then Some (val = 2)
      else if val smod 3 = 0 then Some (val = 3)
      else if val smod 5 = 0 then Some (val = 5)
      else isprime_loop val 7)"

text \<open>
  The reference notion of a prime number, in the words of the claim: at least 2 and with no
  divisor strictly between 1 and itself.
\<close>

definition prime_number :: "int \<Rightarrow> bool" where
  "prime_number val = (2 \<le> val \<and> (\<forall>d\<in>{2..<val}. \<not> d dvd val))"

subsection \<open>fcs\<close>

text \<open>
  \<^verbatim>\<open>std::set<typename C::value_type> s;
  while (s.size() != n) s.insert(func());
  c.assign(s.begin(), s.end());\<close>
  A \<open>std::set\<close> is modelled by the list of its elements in iteration order, which is
  strictly increasing; \<open>insert\<close> leaves the set unchanged when the element is present.
  The callable \<open>func\<close> may have state of its own (a generator drawing from the shared
  engine): it is a function from its state to the returned element and the next state.
  The loop need not terminate, so it is a partial function into \<open>option\<close>: \<open>None\<close>
  is the loop that never reaches size \<open>n\<close>. The container \<open>c\<close> is a list, and
  \<open>assign\<close> replaces its contents.
\<close>

definition set_insert :: "'a::linorder \<Rightarrow> 'a list \<Rightarrow> 'a list" where
  "set_insert x s = (if x \<in> set s then s else insort x s)"

partial_function (option) fcs_loop ::
  "('s \<Rightarrow> 'a::linorder \<times> 's) \<Rightarrow> nat \<Rightarrow> 'a list \<Rightarrow> 's \<Rightarrow> ('a list \<times> 's) option" where
  "fcs_loop func n s st =
     (if length s \<noteq> n
      then (case func st of (x, st') \<Rightarrow> fcs_loop func n (set_insert x s) st')
      else Some (s, st))"

definition fcs ::
  "'a::linorder list \<Rightarrow> nat \<Rightarrow> ('s \<Rightarrow> 'a \<times> 's) \<Rightarrow> 's \<Rightarrow> ('a list \<times> 's) option" where
  "fcs c n func st =
     (case fcs_loop func n [] st of
        None \<Rightarrow> None
      | Some (s, st') \<Rightarrow> Some (s, st'))"

text \<open>The first \<open>k\<close> values that \<open>func\<close> returns when called repeatedly from state \<open>st\<close>.\<close>

fun outputs :: "('s \<Rightarrow> 'a \<times> 's) \<Rightarrow> 's \<Rightarrow> nat \<Rightarrow> 'a list" where
  "outputs func st 0 = []"
| "outputs func st (Suc k) = (case func st of (x, st') \<Rightarrow> x # outputs func st' k)"

declare fcs_loop.simps [code]

subsection \<open>Outcomes of a call\<close>

text \<open>
  A call of the library returns a value, throws (\<open>std::runtime_error\<close> with its
  \<open>what()\<close> text), ends the process through \<open>std::exit\<close> after writing to
  \<open>std::cerr\<close>, or ends it through \<open>std::abort\<close> (a failed assertion of the standard
  library).
\<close>

datatype exit_status = EXIT_SUCCESS | EXIT_FAILURE

datatype 'a outcome = Returned 'a | Thrown string | Exited string exit_status | Aborted


subsection \<open>The random facility: urng, Irand, Drand\<close>

text \<open>
  The header \<open><random>\<close> is the C++ standard library's, not this repository's. Its
  components that the facility uses are parameters of the model, collected in one record:
  \<^item> \<open>random_device i\<close>: the value that the \<open>i\<close>-th evaluation of
    \<open>std::random_device{}()\<close> in the process yields (the entropy source, an input of the
    model);
  \<^item> \<open>mt19937 seed\<close>: the engine state that \<open>std::mt19937{seed}\<close> constructs;
  \<^item> \<open>uniform_int_distribution (a, b) e\<close>: the value that
    \<open>std::uniform_int_distribution<int>{a, b}\<close> produces from engine state \<open>e\<close>, and the
    engine state it leaves;
  \<^item> \<open>uniform_real_distribution (a, b) e\<close>: the same for
    \<open>std::uniform_real_distribution<double>\<close>. The type \<open>'r\<close> stands for \<open>double\<close>;
  \<^item> \<open>int_dist_ctor_undefined a b\<close> and \<open>real_dist_ctor_undefined a b\<close>: what the
    constructor of the distribution does when it is called with bounds that violate its
    precondition \<open>a \<le> b\<close>. The standard defines nothing there, so the library decides: a
    default build stores the bounds unchecked and returns, a build with the library's
    assertions enabled aborts inside the constructor.
  A distribution object is represented by its pair of parameters.
\<close>

record ('e, 'r) stdlib =
  random_device :: "nat \<Rightarrow> nat"
  mt19937 :: "nat \<Rightarrow> 'e"
  uniform_int_distribution :: "int \<times> int \<Rightarrow> 'e \<Rightarrow> int \<times> 'e"
  uniform_real_distribution :: "'r \<times> 'r \<Rightarrow> 'e \<Rightarrow> 'r \<times> 'e"
  int_dist_ctor_undefined :: "int \<Rightarrow> int \<Rightarrow> (int \<times> int) outcome"
  real_dist_ctor_undefined :: "'r \<Rightarrow> 'r \<Rightarrow> ('r \<times> 'r) outcome"

text \<open>
  The constructors of the two distributions ([rand.dist.uni.int], [rand.dist.uni.real]):
  with \<open>a \<le> b\<close> they construct the distribution with parameters \<open>a\<close> and \<open>b\<close>; a
  call that violates the precondition is undefined and is a branch of its own.
\<close>

definition uniform_int_distribution_ctor ::
  "('e, 'r) stdlib \<Rightarrow> int \<Rightarrow> int \<Rightarrow> (int \<times> int) outcome" where
  "uniform_int_distribution_ctor L a b =
     (if a \<le> b then Returned (a, b) else int_dist_ctor_undefined L a b)"


text \<open>
  \<^verbatim>\<open>static std::mt19937 eng{ std::random_device{}() };\<close>
  The function-local static of \<open>urng\<close> is the one engine of the process. It is
  uninitialised (\<open>None\<close>) until the first call of \<open>urng\<close>. The field \<open>rd_calls\<close>
  counts the evaluations of \<open>std::random_device{}()\<close>, each of which constructs and
  seeds an engine.
\<close>

record 'e process =
  eng :: "'e option"
  rd_calls :: nat

definition process_start :: "'e process" where
  "process_start = \<lparr>eng = None, rd_calls = 0\<rparr>"

text \<open>
  \<open>urng\<close> returns a reference to the static: the model returns the engine state that the
  reference designates, and the process with the static initialised. A caller that
  advances the engine through the reference writes the new state into \<open>eng\<close>. (The
  earliest revision of the header has the same function as a static member of
  \<open>Irand\<close>.)
\<close>

definition urng :: "('e, 'r) stdlib \<Rightarrow> 'e process \<Rightarrow> 'e \<times> 'e process" where
  "urng L p =
     (case eng p of
        Some e \<Rightarrow> (e, p)
      | None \<Rightarrow>
          (let e = mt19937 L (random_device L (rd_calls p))
           in (e, p\<lparr>eng := Some e, rd_calls := rd_calls p + 1\<rparr>)))"

text \<open>
  \<^verbatim>\<open>Irand(int min, int max) : m_dist{ min, max } {}\<close>
  \<^verbatim>\<open>int operator()() { return m_dist(urng()); }\<close>
  The constructor has no statement but the member initialiser, which runs the
  constructor of the distribution: the source has no check of the bounds of its own, and
  construction ends as the library's constructor ends.
\<close>

record Irand =
  m_dist :: "int \<times> int"

definition Irand_ctor :: "('e, 'r) stdlib \<Rightarrow> int \<Rightarrow> int \<Rightarrow> Irand outcome" where
  "Irand_ctor L imin imax =
     (case uniform_int_distribution_ctor L imin imax of
        Returned d \<Rightarrow> Returned \<lparr>m_dist = d\<rparr>
      | Thrown what \<Rightarrow> Thrown what
      | Exited err status \<Rightarrow> Exited err status
      | Aborted \<Rightarrow> Aborted)"

definition Irand_call :: "('e, 'r) stdlib \<Rightarrow> Irand \<Rightarrow> 'e process \<Rightarrow> int \<times> 'e process" where
  "Irand_call L g p =
     (case urng L p of (e, p1) \<Rightarrow>
        (case uniform_int_distribution L (m_dist g) e of (v, e') \<Rightarrow>
           (v, p1\<lparr>eng := Some e'\<rparr>)))"

text \<open>\<open>Drand\<close> is the same class over \<open>double\<close> and \<open>std::uniform_real_distribution\<close>.\<close>

record 'r Drand =
  m_dist_d :: "'r \<times> 'r"


definition Drand_call :: "('e, 'r) stdlib \<Rightarrow> 'r Drand \<Rightarrow> 'e process \<Rightarrow> 'r \<times> 'e process" where
  "Drand_call L g p =
     (case urng L p of (e, p1) \<Rightarrow>
        (case uniform_real_distribution L (m_dist_d g) e of (v, e') \<Rightarrow>
           (v, p1\<lparr>eng := Some e'\<rparr>)))"


text \<open>
  A run of the facility: calls of \<open>urng\<close> and draws from any generators, in any order.
  \<open>random_name\<close> and \<open>random_surname\<close> draw through a temporary \<open>Irand\<close>, so their
  effect on the engine is that of an \<open>Irand_op\<close>.
\<close>

datatype 'r op = Urng_op | Irand_op Irand | Drand_op "'r Drand"

datatype ('e, 'r) drawn = Engine 'e | Int_val int | Double_val 'r

fun step :: "('e, 'r) stdlib \<Rightarrow> 'r op \<Rightarrow> 'e process \<Rightarrow> ('e, 'r) drawn \<times> 'e process" where
  "step L Urng_op p = (case urng L p of (e, p') \<Rightarrow> (Engine e, p'))"
| "step L (Irand_op g) p = (case Irand_call L g p of (v, p') \<Rightarrow> (Int_val v, p'))"
| "step L (Drand_op g) p = (case Drand_call L g p of (v, p') \<Rightarrow> (Double_val v, p'))"

fun run :: "('e, 'r) stdlib \<Rightarrow> 'r op list \<Rightarrow> 'e process \<Rightarrow> ('e, 'r) drawn list \<times> 'e process" where
  "run L [] p = ([], p)"
| "run L (x # xs) p =
     (case step L x p of (v, p') \<Rightarrow> (case run L xs p' of (vs, p'') \<Rightarrow> (v # vs, p'')))"

text \<open>
  The reference for shared-engine reuse, in the words of the specification: one single
  stream of states of one engine, mapped through the distribution of each draw in turn.
  Nothing here initialises, seeds or replaces an engine.
\<close>

fun through_distribution :: "('e, 'r) stdlib \<Rightarrow> 'r op \<Rightarrow> 'e \<Rightarrow> ('e, 'r) drawn \<times> 'e" where
  "through_distribution L Urng_op e = (Engine e, e)"
| "through_distribution L (Irand_op g) e =
     (case uniform_int_distribution L (m_dist g) e of (v, e') \<Rightarrow> (Int_val v, e'))"
| "through_distribution L (Drand_op g) e =
     (case uniform_real_distribution L (m_dist_d g) e of (v, e') \<Rightarrow> (Double_val v, e'))"

fun single_stream :: "('e, 'r) stdlib \<Rightarrow> 'r op list \<Rightarrow> 'e \<Rightarrow> ('e, 'r) drawn list \<times> 'e" where
  "single_stream L [] e = ([], e)"
| "single_stream L (x # xs) e =
     (case through_distribution L x e of (v, e') \<Rightarrow>
        (case single_stream L xs e' of (vs, e'') \<Rightarrow> (v # vs, e'')))"

text \<open>
  The engine that the next call of \<open>urng\<close> hands out: the static if it is initialised,
  the freshly seeded engine otherwise.
\<close>

definition shared_engine :: "('e, 'r) stdlib \<Rightarrow> 'e process \<Rightarrow> 'e" where
  "shared_engine L p = fst (urng L p)"

text \<open>
  The contract of \<open>std::uniform_int_distribution\<close> in the C++ standard
  ([rand.dist.uni.int]): constructed with \<open>a \<le> b\<close>, it produces integers \<open>i\<close> with
  \<open>a \<le> i \<le> b\<close>.
\<close>

definition uniform_int_contract :: "('e, 'r) stdlib \<Rightarrow> bool" where
  "uniform_int_contract L =
     (\<forall>a b e. a \<le> b \<longrightarrow>
        a \<le> fst (uniform_int_distribution L (a, b) e) \<and> fst (uniform_int_distribution L (a, b) e) \<le> b)"


text \<open>
  Two small concrete libraries that satisfy the contracts, for running the model: a linear
  congruential engine, the range reduced by remainder. The constructors of the first store
  inverted bounds unchecked, as a default build does; those of the second abort on them,
  as a build with the library's assertions does.
\<close>

definition toy_uniform_int :: "int \<times> int \<Rightarrow> nat \<Rightarrow> int \<times> nat" where
  "toy_uniform_int ab e = (fst ab + int e mod (snd ab - fst ab + 1), 5 * e + 3)"

definition toy_uniform_real :: "real \<times> real \<Rightarrow> nat \<Rightarrow> real \<times> nat" where
  "toy_uniform_real ab e = (fst ab + (snd ab - fst ab) * real (e mod 4) / 4, 5 * e + 3)"

definition toy_stdlib :: "(nat, real) stdlib" where
  "toy_stdlib =
     \<lparr>random_device = (\<lambda>i. 2024 + i),
      mt19937 = (\<lambda>seed. seed),
      uniform_int_distribution = toy_uniform_int,
      uniform_real_distribution = toy_uniform_real,
      int_dist_ctor_undefined = (\<lambda>a b. Returned (a, b)),
      real_dist_ctor_undefined = (\<lambda>a b. Returned (a, b))\<rparr>"


subsection \<open>File operations\<close>

text \<open>
  \<open>std::ifstream\<close> and \<open>std::ofstream\<close> are the standard library's. A stream is
  modelled by its fail state after construction (what \<open>!ifs\<close> tests), its mode and, for
  an input stream, the bytes of its buffer. Opening for reading succeeds when the file
  exists and may be read; opening for writing succeeds when the file may be written, and
  creates or truncates it.
\<close>

definition newline :: string where
  "newline = [CHR 0x0A]"

record filesystem =
  contents :: "string \<rightharpoonup> string"
  may_read :: "string \<Rightarrow> bool"
  may_write :: "string \<Rightarrow> bool"

record ifstream =
  i_fail :: bool
  i_binary :: bool
  i_rdbuf :: string

record ofstream =
  o_fail :: bool
  o_binary :: bool
  o_name :: string

definition ifstream_ctor :: "filesystem \<Rightarrow> string \<Rightarrow> bool \<Rightarrow> ifstream" where
  "ifstream_ctor fs filename binary =
     (case contents fs filename of
        Some bytes \<Rightarrow>
          if may_read fs filename
          then \<lparr>i_fail = False, i_binary = binary, i_rdbuf = bytes\<rparr>
          else \<lparr>i_fail = True, i_binary = binary, i_rdbuf = []\<rparr>
      | None \<Rightarrow> \<lparr>i_fail = True, i_binary = binary, i_rdbuf = []\<rparr>)"

definition ofstream_ctor :: "filesystem \<Rightarrow> string \<Rightarrow> bool \<Rightarrow> ofstream \<times> filesystem" where
  "ofstream_ctor fs filename binary =
     (if may_write fs filename
      then (\<lparr>o_fail = False, o_binary = binary, o_name = filename\<rparr>,
            fs\<lparr>contents := (contents fs)(filename \<mapsto> [])\<rparr>)
      else (\<lparr>o_fail = True, o_binary = binary, o_name = filename\<rparr>, fs))"

text \<open>The four wrappers that return a stream, as in every revision of the header.\<close>

definition open_text_file :: "filesystem \<Rightarrow> string \<Rightarrow> ifstream outcome" where
  "open_text_file fs filename =
     (let ifs = ifstream_ctor fs filename False
      in if i_fail ifs then Thrown (filename @ '' : cannot be opened!'' @ newline)
         else Returned ifs)"

definition create_text_file :: "filesystem \<Rightarrow> string \<Rightarrow> ofstream outcome \<times> filesystem" where
  "create_text_file fs filename =
     (case ofstream_ctor fs filename False of (ofs, fs') \<Rightarrow>
        (if o_fail ofs then Thrown (filename @ '': cannot be created!'' @ newline)
         else Returned ofs, fs'))"

definition open_binary_file :: "filesystem \<Rightarrow> string \<Rightarrow> ifstream outcome" where
  "open_binary_file fs filename =
     (let ifs = ifstream_ctor fs filename True
      in if i_fail ifs then Thrown (filename @ '' : cannot be opened!'' @ newline)
         else Returned ifs)"

definition create_binary_file :: "filesystem \<Rightarrow> string \<Rightarrow> ofstream outcome \<times> filesystem" where
  "create_binary_file fs filename =
     (case ofstream_ctor fs filename True of (ofs, fs') \<Rightarrow>
        (if o_fail ofs then Thrown (filename @ '' : cannot be created!'' @ newline)
         else Returned ofs, fs'))"

text \<open>
  \<open>get_str_from_file\<close> of nutility.h opens the file through \<open>open_text_file\<close> and
  returns the text of its buffer; an exception of \<open>open_text_file\<close> propagates.
\<close>

definition get_str_from_file :: "filesystem \<Rightarrow> string \<Rightarrow> string outcome" where
  "get_str_from_file fs filename =
     (case open_text_file fs filename of
        Returned ifs \<Rightarrow> Returned (i_rdbuf ifs)
      | Thrown what \<Rightarrow> Thrown what
      | Exited err status \<Rightarrow> Exited err status
      | Aborted \<Rightarrow> Aborted)"

text \<open>
  \<open>get_str_from_file\<close> of the two earlier revisions of the header:
  \<^verbatim>\<open>if (!ifs) { std::cerr << "cannot open file\n"; std::exit(EXIT_FAILURE); }\<close>
\<close>

definition get_str_from_file_exit :: "filesystem \<Rightarrow> string \<Rightarrow> string outcome" where
  "get_str_from_file_exit fs filename =
     (let ifs = ifstream_ctor fs filename False
      in if i_fail ifs then Exited (''cannot open file'' @ newline) EXIT_FAILURE
         else Returned (i_rdbuf ifs))"

definition raised :: "'a outcome \<Rightarrow> bool" where
  "raised r = (case r of Thrown what \<Rightarrow> True | _ \<Rightarrow> False)"

definition no_files :: filesystem where
  "no_files = \<lparr>contents = (\<lambda>name. None), may_read = (\<lambda>name. True), may_write = (\<lambda>name. True)\<rparr>"

section \<open>Properties\<close>

subsection \<open>ndigit counts decimal digits\<close>

lemma abs_sdiv10: "\<bar>(v::int) sdiv 10\<bar> = \<bar>v\<bar> div 10"
  by (cases "v = 0") (simp_all add: signed_divide_int_def abs_mult abs_sgn_eq)

lemma sdiv10_uminus: "(- v) sdiv 10 = - ((v::int) sdiv 10)"
  by (simp add: signed_divide_int_def)

lemma ndigit_loop_uminus: "ndigit_loop (- v) c = ndigit_loop v c"
proof (induction v c rule: ndigit_loop.induct)
  case (1 val digit_count)
  show ?case
  proof (cases "val = 0")
    case True
    then show ?thesis by (simp add: ndigit_loop.simps)
  next
    case False
    then have "ndigit_loop (- val) digit_count = ndigit_loop (- (val sdiv 10)) (digit_count + 1)"
      by (subst ndigit_loop.simps) (simp add: sdiv10_uminus)
    also have "\<dots> = ndigit_loop (val sdiv 10) (digit_count + 1)"
      using False by (rule "1.IH")
    also have "\<dots> = ndigit_loop val digit_count"
      using False by (subst (2) ndigit_loop.simps) simp
    finally show ?thesis .
  qed
qed

text \<open>
  The loop invariant in closed form: started on a non-zero value with the counter at
  \<open>c\<close>, the loop adds to \<open>c\<close> the number \<open>d\<close> of decimal digits of \<open>\<bar>val\<bar>\<close>.
\<close>

lemma ndigit_loop_digits:
  "val \<noteq> 0 \<Longrightarrow>
     \<exists>d\<ge>1. ndigit_loop val c = c + int d \<and> 10 ^ (d - 1) \<le> \<bar>val\<bar> \<and> \<bar>val\<bar> < 10 ^ d"
proof (induction val c rule: ndigit_loop.induct)
  case (1 val digit_count)
  let ?q = "val sdiv 10"
  have step: "ndigit_loop val digit_count = ndigit_loop ?q (digit_count + 1)"
    using "1.prems" by (subst ndigit_loop.simps) simp
  show ?case
  proof (cases "?q = 0")
    case True
    then have "\<bar>val\<bar> div 10 = 0"
      using abs_sdiv10 [of val] by simp
    then have small: "\<bar>val\<bar> < 10" by simp
    have "ndigit_loop val digit_count = digit_count + int 1"
      using step True by (simp add: ndigit_loop.simps)
    moreover have "10 ^ (1 - 1) \<le> \<bar>val\<bar>" using "1.prems" by simp
    moreover have "\<bar>val\<bar> < 10 ^ (1::nat)" using small by simp
    ultimately show ?thesis by (intro exI [of _ "1::nat"]) simp
  next
    case False
    from "1.IH" [OF "1.prems" False]
    obtain d where d: "1 \<le> d" "ndigit_loop ?q (digit_count + 1) = digit_count + 1 + int d"
      "10 ^ (d - 1) \<le> \<bar>?q\<bar>" "\<bar>?q\<bar> < 10 ^ d"
      by blast
    have lo: "10 ^ (Suc d - 1) \<le> \<bar>val\<bar>"
    proof -
      have "10 * 10 ^ (d - 1) \<le> 10 * (\<bar>val\<bar> div 10)"
        using d(3) abs_sdiv10 [of val] by simp
      also have "\<dots> \<le> \<bar>val\<bar>" by simp
      finally have "10 * 10 ^ (d - 1) \<le> \<bar>val\<bar>" .
      moreover have "(10::int) * 10 ^ (d - 1) = 10 ^ d"
        using d(1) by (cases d) simp_all
      ultimately show ?thesis by simp
    qed
    have hi: "\<bar>val\<bar> < 10 ^ Suc d"
    proof -
      have "\<bar>val\<bar> div 10 < 10 ^ d"
        using d(4) abs_sdiv10 [of val] by simp
      then have "\<bar>val\<bar> < 10 * 10 ^ d"
        by (simp add: div_less_iff_less_mult mult.commute)
      then show ?thesis by simp
    qed
    have "ndigit_loop val digit_count = digit_count + int (Suc d)"
      using step d(2) by simp
    with lo hi show ?thesis by (intro exI [of _ "Suc d"]) simp
  qed
qed

lemma digits_unique:
  fixes n :: int
  assumes "1 \<le> d" "10 ^ (d - 1) \<le> n" "n < 10 ^ d"
    and "1 \<le> e" "10 ^ (e - 1) \<le> n" "n < 10 ^ e"
  shows "d = (e::nat)"
proof (rule ccontr)
  assume "d \<noteq> e"
  then consider "d < e" | "e < d" by linarith
  then show False
  proof cases
    case 1
    then have "d \<le> e - 1" by simp
    then have "(10::int) ^ d \<le> 10 ^ (e - 1)" by (simp add: power_increasing)
    with assms show False by linarith
  next
    case 2
    then have "e \<le> d - 1" by simp
    then have "(10::int) ^ e \<le> 10 ^ (d - 1)" by (simp add: power_increasing)
    with assms show False by linarith
  qed
qed

text \<open>
  The counter of \<open>ndigit\<close> stays far below \<open>INT_MAX\<close>: an \<open>int\<close> has at most ten
  decimal digits, so \<open>++digit_count\<close> never overflows, and \<open>val /= 10\<close> cannot
  overflow either (only a division by \<open>-1\<close> can).
\<close>

lemma ndigit_le_10:
  assumes "int32 val"
  shows "1 \<le> ndigit val \<and> ndigit val \<le> 10"
proof (cases "val = 0")
  case True
  then show ?thesis by (simp add: ndigit_def)
next
  case False
  from ndigit_loop_digits [OF False, of 0]
  obtain k where k: "1 \<le> k" "ndigit_loop val 0 = int k" "10 ^ (k - 1) \<le> \<bar>val\<bar>"
    by auto
  have "\<bar>val\<bar> < 10000000000"
    using assms unfolding int32_def INT_MIN_def INT_MAX_def by linarith
  then have "\<bar>val\<bar> < 10 ^ 10" by simp
  with k(3) have lt: "(10::int) ^ (k - 1) < 10 ^ 10" by linarith
  have "k - 1 < 10"
  proof (rule ccontr)
    assume "\<not> k - 1 < 10"
    then have "(10::int) ^ 10 \<le> 10 ^ (k - 1)"
      by (intro power_increasing) simp_all
    with lt show False by linarith
  qed
  then show ?thesis using k(1,2) False by (simp add: ndigit_def)
qed

text \<open>
  Claim C9. For every \<open>int\<close> value, \<open>ndigit\<close> returns the number of decimal digits
  of its absolute value: \<open>ndigit 0 = 1\<close>; \<open>ndigit (- val) = ndigit val\<close> whenever
  \<open>- val\<close> is an \<open>int\<close> again (every value but \<open>INT_MIN\<close>); and for a non-zero
  value the result is the one \<open>d \<ge> 1\<close> with \<open>10 ^ (d - 1) \<le> \<bar>val\<bar> < 10 ^ d\<close>.
  The function terminates on every input: \<open>ndigit_loop\<close> is a total function whose
  termination is proved above, so the statement holds at \<open>INT_MIN\<close> as well.
\<close>

theorem ndigit_counts_decimal_digits:
  assumes "int32 val"
  shows "ndigit 0 = 1
    \<and> (val \<noteq> INT_MIN \<longrightarrow> int32 (- val) \<and> ndigit (- val) = ndigit val)
    \<and> (val \<noteq> 0 \<longrightarrow>
         1 \<le> ndigit val
       \<and> 10 ^ (nat (ndigit val) - 1) \<le> \<bar>val\<bar> \<and> \<bar>val\<bar> < 10 ^ nat (ndigit val)
       \<and> (\<forall>d\<ge>1. 10 ^ (d - 1) \<le> \<bar>val\<bar> \<and> \<bar>val\<bar> < 10 ^ d \<longrightarrow> ndigit val = int d))"
proof (intro conjI impI)
  show "ndigit 0 = 1" by (simp add: ndigit_def)
next
  assume "val \<noteq> INT_MIN"
  with assms show "int32 (- val)" by (simp add: int32_def INT_MIN_def INT_MAX_def)
next
  show "ndigit (- val) = ndigit val"
    by (simp add: ndigit_def ndigit_loop_uminus)
next
  assume nz: "val \<noteq> 0"
  from ndigit_loop_digits [OF nz, of 0]
  obtain k where k: "1 \<le> k" "ndigit_loop val 0 = int k"
    "10 ^ (k - 1) \<le> \<bar>val\<bar>" "\<bar>val\<bar> < 10 ^ k"
    by auto
  have nd: "ndigit val = int k" using nz k(2) by (simp add: ndigit_def)
  show "1 \<le> ndigit val" using nd k(1) by simp
  show "10 ^ (nat (ndigit val) - 1) \<le> \<bar>val\<bar>" using nd k(3) by simp
  show "\<bar>val\<bar> < 10 ^ nat (ndigit val)" using nd k(4) by simp
  show "\<forall>d\<ge>1. 10 ^ (d - 1) \<le> \<bar>val\<bar> \<and> \<bar>val\<bar> < 10 ^ d \<longrightarrow> ndigit val = int d"
  proof (intro allI impI)
    fix d :: nat
    assume "1 \<le> d" and "10 ^ (d - 1) \<le> \<bar>val\<bar> \<and> \<bar>val\<bar> < 10 ^ d"
    then have "k = d"
      using digits_unique [of k "\<bar>val\<bar>" d] k by simp
    then show "ndigit val = int d" using nd by simp
  qed
qed

theorem ndigit_counts_decimal_digits_witness:
  "int32 INT_MIN \<and> ndigit INT_MIN = 10 \<and> ndigit 0 = 1
    \<and> int32 (- 987) \<and> - 987 \<noteq> INT_MIN \<and> ndigit (- 987) = 3 \<and> ndigit (- (- 987)) = 3
    \<and> (10::int) ^ (3 - 1) \<le> \<bar>- 987\<bar> \<and> \<bar>- 987 :: int\<bar> < 10 ^ 3"
  using ndigit_counts_decimal_digits [of "- 987"]
  by (simp add: int32_def INT_MIN_def INT_MAX_def ndigit_def ndigit_loop.simps
      signed_divide_int_def)

subsection \<open>isprime decides primality where it is defined\<close>

lemma smod_eq_0_iff_dvd: "0 \<le> v \<Longrightarrow> 0 < k \<Longrightarrow> v smod k = 0 \<longleftrightarrow> k dvd v" for v k :: int
  by (cases "v = 0") (auto simp: signed_modulo_int_def dvd_eq_mod_eq_0)

lemma prime_numberI:
  assumes "2 \<le> val" and "\<And>d. 2 \<le> d \<Longrightarrow> d < val \<Longrightarrow> \<not> d dvd val"
  shows "prime_number val"
  using assms by (auto simp: prime_number_def)

lemma not_prime_numberI:
  assumes "2 \<le> d" "d < val" "d dvd val"
  shows "\<not> prime_number val"
  using assms by (auto simp: prime_number_def)

lemma no_small_divisor_prime:
  fixes val k :: int
  assumes v: "2 \<le> val" and k: "0 \<le> k" and sq: "val < k * k"
    and inv: "\<And>d. 2 \<le> d \<Longrightarrow> d < k \<Longrightarrow> \<not> d dvd val"
  shows "prime_number val"
proof (rule prime_numberI [OF v])
  fix d :: int
  assume d: "2 \<le> d" "d < val"
  show "\<not> d dvd val"
  proof
    assume "d dvd val"
    then obtain e where e: "val = d * e" by (auto simp: dvd_def)
    have "0 < d * e" using v e by simp
    then have epos: "0 < e"
      using d(1) by (simp add: zero_less_mult_iff)
    have e2: "2 \<le> e"
    proof (rule ccontr)
      assume "\<not> 2 \<le> e"
      with epos have "e = 1" by simp
      with e d(2) show False by simp
    qed
    have "e dvd val" using e by simp
    have "\<not> d < k" using inv [OF d(1)] \<open>d dvd val\<close> by blast
    moreover have "\<not> e < k" using inv [OF e2] \<open>e dvd val\<close> by blast
    ultimately have "k * k \<le> d * e" using k by (intro mult_mono) simp_all
    with sq e show False by simp
  qed
qed

lemma isprime_loop_sound:
  "isprime_loop val k = Some b \<Longrightarrow> 7 \<le> k \<Longrightarrow> odd k \<Longrightarrow> odd val \<Longrightarrow> 2 \<le> val \<Longrightarrow>
     (\<And>d. 2 \<le> d \<Longrightarrow> d < k \<Longrightarrow> \<not> d dvd val) \<Longrightarrow> b = prime_number val"
proof (induction val k rule: isprime_loop.induct)
  case (1 val k)
  note res = "1.prems"(1) and k7 = "1.prems"(2) and oddk = "1.prems"(3)
    and oddv = "1.prems"(4) and v2 = "1.prems"(5) and inv = "1.prems"(6)
  have rng: "int32 (k * k)"
    using res by (subst (asm) isprime_loop.simps) (simp split: if_splits)
  show ?case
  proof (cases "k * k \<le> val")
    case False
    then have "b = True"
      using res rng by (subst (asm) isprime_loop.simps) simp
    moreover have "prime_number val"
      using v2 _ _ inv by (rule no_small_divisor_prime) (use False k7 in simp_all)
    ultimately show ?thesis by simp
  next
    case le: True
    have kv: "k < val"
    proof -
      have "k * 1 < k * k" using k7 by (intro mult_strict_left_mono) simp_all
      with le show ?thesis by simp
    qed
    show ?thesis
    proof (cases "val smod k = 0")
      case True
      then have "b = False"
        using res rng le by (subst (asm) isprime_loop.simps) simp
      moreover have "k dvd val"
        using True smod_eq_0_iff_dvd [of val k] v2 k7 by simp
      then have "\<not> prime_number val"
        using not_prime_numberI [of k val] k7 kv by simp
      ultimately show ?thesis by simp
    next
      case False
      then have next_call: "isprime_loop val (k + 2) = Some b"
        using res rng le by (subst (asm) isprime_loop.simps) simp
      have nk: "\<not> k dvd val"
        using False smod_eq_0_iff_dvd [of val k] v2 k7 by simp
      have inv': "\<not> d dvd val" if "2 \<le> d" "d < k + 2" for d
      proof (cases "d < k")
        case True
        then show ?thesis using inv that(1) by blast
      next
        case False
        then have "d = k \<or> d = k + 1" using that(2) by linarith
        then show ?thesis
        proof
          assume "d = k"
          then show ?thesis using nk by simp
        next
          assume "d = k + 1"
          then have "even d" using oddk by simp
          then show ?thesis using oddv by (meson dvd_trans)
        qed
      qed
      show ?thesis
        using "1.IH" [OF _ le False next_call _ _ oddv v2 inv'] rng k7 oddk
        by simp
    qed
  qed
qed

lemma isprime_loop_defined:
  "0 \<le> k \<Longrightarrow> k \<le> 46340 \<Longrightarrow> val < 46339 * 46339 \<Longrightarrow> isprime_loop val k \<noteq> None"
proof (induction val k rule: isprime_loop.induct)
  case (1 val k)
  have "k * k \<le> 46340 * 46340"
    using "1.prems"(1,2) by (intro mult_mono) simp_all
  moreover have "0 \<le> k * k" by simp
  ultimately have rng: "int32 (k * k)"
    unfolding int32_def INT_MIN_def INT_MAX_def by linarith
  show ?case
  proof (cases "k * k \<le> val \<and> val smod k \<noteq> 0")
    case False
    then show ?thesis using rng by (subst isprime_loop.simps) auto
  next
    case True
    have "k < 46339"
    proof (rule ccontr)
      assume "\<not> k < 46339"
      then have "46339 * 46339 \<le> k * k" by (intro mult_mono) simp_all
      with True "1.prems"(3) show False by simp
    qed
    then have "isprime_loop val (k + 2) \<noteq> None"
      using "1.IH" [of] rng True "1.prems" by simp
    then show ?thesis using rng True by (subst isprime_loop.simps) simp
  qed
qed

text \<open>
  The hypothesis of the claim is not idle: on a prime number from \<open>46339 * 46339\<close>
  upwards no divisor stops the loop before \<open>k = 46341\<close>, whose square is not an
  \<open>int\<close>. (\<open>INT_MAX\<close> itself is such a prime.)
\<close>

lemma isprime_loop_overflows:
  "7 \<le> k \<Longrightarrow> odd k \<Longrightarrow> prime_number val \<Longrightarrow> 46339 * 46339 \<le> val \<Longrightarrow>
     isprime_loop val k = None"
proof (induction val k rule: isprime_loop.induct)
  case (1 val k)
  show ?case
  proof (cases "int32 (k * k)")
    case False
    then show ?thesis by (subst isprime_loop.simps) simp
  next
    case True
    have "k \<le> 46340"
    proof (rule ccontr)
      assume "\<not> k \<le> 46340"
      then have "46341 * 46341 \<le> k * k" by (intro mult_mono) simp_all
      with True show False by (simp add: int32_def INT_MAX_def)
    qed
    moreover have "k \<noteq> 46340" using "1.prems"(2) by auto
    ultimately have k: "k \<le> 46339" by simp
    have "k * k \<le> 46339 * 46339"
      using k "1.prems"(1) by (intro mult_mono) simp_all
    then have le: "k * k \<le> val" using "1.prems"(4) by simp
    have "k * 1 < k * k" using "1.prems"(1) by (intro mult_strict_left_mono) simp_all
    then have "k < val" using le by simp
    then have "\<not> k dvd val"
      using "1.prems"(1,3) by (auto simp: prime_number_def)
    then have nz: "val smod k \<noteq> 0"
      using smod_eq_0_iff_dvd [of val k] "1.prems"(1,4) by simp
    have "isprime_loop val (k + 2) = None"
      using "1.IH" [OF _ le nz] True "1.prems" by simp
    then show ?thesis using True le nz by (subst isprime_loop.simps) simp
  qed
qed

lemma isprime_undefined_on_large_primes:
  assumes "prime_number val" and "46339 * 46339 \<le> val"
  shows "isprime val = None"
proof -
  have nd: "\<not> d dvd val" if "2 \<le> d" "d \<le> 5" for d
    using assms that by (auto simp: prime_number_def)
  have sm: "val smod d \<noteq> 0" if "2 \<le> d" "d \<le> 5" for d
    using smod_eq_0_iff_dvd [of val d] nd [OF that] that assms(2) by simp
  have "isprime val = isprime_loop val 7"
    using assms(2) sm [of 2] sm [of 3] sm [of 5] by (simp add: isprime_def)
  then show ?thesis
    using isprime_loop_overflows [of 7 val] assms by simp
qed

text \<open>
  Claim C8. For every \<open>int\<close> value on which the trial-division loop does not overflow
  (the model returns \<open>Some b\<close>), the returned \<open>b\<close> is true exactly when the value is a
  prime number; every value below 2 is answered with false; and the loop does not
  overflow for any value below \<open>46339 * 46339 = 2147302921\<close>, so that the hypothesis
  excludes nothing there.
\<close>

theorem isprime_correct:
  assumes "int32 val"
  shows "(isprime val = Some b \<longrightarrow> b = prime_number val)
       \<and> (val < 2 \<longrightarrow> isprime val = Some False)
       \<and> (val < 46339 * 46339 \<longrightarrow> isprime val \<noteq> None)"
proof (intro conjI impI)
  assume res: "isprime val = Some b"
  show "b = prime_number val"
  proof (cases "val < 2")
    case True
    then show ?thesis using res by (simp add: isprime_def prime_number_def)
  next
    case False
    then have v2: "2 \<le> val" by simp
    have dv: "val smod k = 0 \<longleftrightarrow> k dvd val" if "0 < k" for k
      using smod_eq_0_iff_dvd [of val k] v2 that by simp
    show ?thesis
    proof (cases "2 dvd val")
      case True
      then have b: "b = (val = 2)" using res v2 by (simp add: isprime_def dv)
      show ?thesis
      proof (cases "val = 2")
        case True
        then show ?thesis using b by (simp add: prime_number_def)
      next
        case False
        then have "\<not> prime_number val"
          using not_prime_numberI [of 2 val] v2 \<open>2 dvd val\<close> by simp
        then show ?thesis using b False by simp
      qed
    next
      case n2: False
      show ?thesis
      proof (cases "3 dvd val")
        case True
        then have b: "b = (val = 3)" using res v2 n2 by (simp add: isprime_def dv)
        show ?thesis
        proof (cases "val = 3")
          case True
          have "prime_number 3"
          proof (rule prime_numberI)
            fix d :: int
            assume "2 \<le> d" "d < 3"
            then have "d = 2" by linarith
            then show "\<not> d dvd 3" by simp
          qed simp
          then show ?thesis using b True by simp
        next
          case False
          then have "\<not> prime_number val"
            using not_prime_numberI [of 3 val] v2 \<open>3 dvd val\<close> n2 by (cases "val = 2") simp_all
          then show ?thesis using b False by simp
        qed
      next
        case n3: False
        show ?thesis
        proof (cases "5 dvd val")
          case True
          then have b: "b = (val = 5)" using res v2 n2 n3 by (simp add: isprime_def dv)
          show ?thesis
          proof (cases "val = 5")
            case True
            have "prime_number 5"
            proof (rule prime_numberI)
              fix d :: int
              assume "2 \<le> d" "d < 5"
              then have "d = 2 \<or> d = 3 \<or> d = 4" by linarith
              then show "\<not> d dvd 5" by auto
            qed simp
            then show ?thesis using b True by simp
          next
            case False
            have "5 \<le> val" using True v2 by (simp add: zdvd_imp_le) 
            then have "\<not> prime_number val"
              using not_prime_numberI [of 5 val] False \<open>5 dvd val\<close> by simp
            then show ?thesis using b False by simp
          qed
        next
          case n5: False
          have loop: "isprime_loop val 7 = Some b"
            using res v2 n2 n3 n5 by (simp add: isprime_def dv)
          have inv: "\<not> d dvd val" if "2 \<le> d" "d < 7" for d
          proof -
            from that consider "d = 2" | "d = 3" | "d = 4" | "d = 5" | "d = 6" by linarith
            then show ?thesis
            proof cases
              case 3 
              have "(2::int) dvd 4" by simp
              then show ?thesis using n2 3 by (meson dvd_trans)
            next
              case 5
              have "(2::int) dvd 6" by simp
              then show ?thesis using n2 5 by (meson dvd_trans)
            qed (use n2 n3 n5 in simp_all)
          qed
          show ?thesis
            using loop _ _ _ v2 inv by (rule isprime_loop_sound) (use n2 in simp_all)
        qed
      qed
    qed
  qed
next
  assume "val < 2"
  then show "isprime val = Some False" by (simp add: isprime_def)
next
  assume "val < 46339 * 46339"
  then have "isprime_loop val 7 \<noteq> None"
    using isprime_loop_defined [of 7 val] by simp
  then show "isprime val \<noteq> None" unfolding isprime_def by auto
qed

theorem isprime_correct_witness:
  "int32 29 \<and> isprime 29 = Some True \<and> prime_number 29
   \<and> int32 91 \<and> isprime 91 = Some False \<and> \<not> prime_number 91
   \<and> int32 (- 7) \<and> isprime (- 7) = Some False"
  using isprime_correct [of 29 True] isprime_correct [of 91 False]
  by (simp add: isprime_def isprime_loop.simps int32_def INT_MIN_def INT_MAX_def
      signed_modulo_int_def)

subsection \<open>fcs fills the container with n sorted distinct values\<close>

lemma set_set_insert: "set (set_insert x s) = insert x (set s)"
  by (auto simp: set_insert_def set_insort_key)

lemma sorted_wrt_less_iff: "sorted_wrt (<) s \<longleftrightarrow> sorted s \<and> distinct s" for s :: "'a::linorder list"
  by (rule strict_sorted_iff)

lemma set_insert_strict_sorted:
  "sorted_wrt (<) s \<Longrightarrow> sorted_wrt (<) (set_insert x s)" for s :: "'a::linorder list"
  by (auto simp: set_insert_def strict_sorted_iff sorted_insort distinct_insort)

lemma length_set_insert:
  "length (set_insert x s) = (if x \<in> set s then length s else Suc (length s))"
  by (simp add: set_insert_def)

lemma outputs_Suc_end:
  "set (outputs func st (Suc k)) = insert (fst (func st)) (set (outputs func (snd (func st)) k))"
  by (simp add: case_prod_beta)

lemma fcs_loop_partial:
  assumes "fcs_loop func n s st = Some (s', st')" and "sorted_wrt (<) s"
  shows "length s' = n \<and> sorted_wrt (<) s' \<and> (\<exists>k. set s' = set s \<union> set (outputs func st k))"
  using assms
proof (induction func n s st "(s', st')"
    rule: fcs_loop.raw_induct [rotated 1, consumes 1, case_names step])
  case (step loop func n s st)
  note 1 = step
  show ?case
  proof (cases "length s = n")
    case True
    then have "s' = s" using 1(2) by simp
    moreover have "set s = set s \<union> set (outputs func st 0)" by simp
    ultimately show ?thesis using True 1(3) by blast
  next
    case False
    obtain x st1 where f: "func st = (x, st1)" by (cases "func st")
    have call: "loop func n (set_insert x s) st1 = Some (s', st')"
      using 1(2) False f by simp
    have "length s' = n \<and> sorted_wrt (<) s'
        \<and> (\<exists>k. set s' = set (set_insert x s) \<union> set (outputs func st1 k))"
      using call 1(3) by (intro 1(1)) (simp_all add: set_insert_strict_sorted)
    then obtain k where k: "length s' = n" "sorted_wrt (<) s'"
      "set s' = set (set_insert x s) \<union> set (outputs func st1 k)" by blast
    have "set s' = set s \<union> set (outputs func st (Suc k))"
      using k(3) f by (simp add: set_set_insert)
    with k(1,2) show ?thesis by blast
  qed
qed

lemma fcs_loop_terminates:
  assumes "sorted_wrt (<) s" and "length s \<le> n"
    and "n \<le> card (set s \<union> set (outputs func st k))"
  shows "fcs_loop func n s st \<noteq> None"
  using assms
proof (induction k arbitrary: s st)
  case 0
  have "card (set s) = length s"
    using "0.prems"(1) by (simp add: strict_sorted_iff distinct_card)
  then have "length s = n" using "0.prems"(2,3) by simp
  then show ?case by (subst fcs_loop.simps) simp
next
  case (Suc k)
  show ?case
  proof (cases "length s = n")
    case True
    then show ?thesis by (subst fcs_loop.simps) simp
  next
    case False
    obtain x st1 where f: "func st = (x, st1)" by (cases "func st")
    have len: "length (set_insert x s) \<le> n"
      using False Suc.prems(2) by (simp add: length_set_insert)
    have "set s \<union> set (outputs func st (Suc k))
          = set (set_insert x s) \<union> set (outputs func st1 k)"
      using f by (simp add: set_set_insert)
    then have "n \<le> card (set (set_insert x s) \<union> set (outputs func st1 k))"
      using Suc.prems(3) by simp
    then have "fcs_loop func n (set_insert x s) st1 \<noteq> None"
      using set_insert_strict_sorted [OF Suc.prems(1)] len by (intro Suc.IH)
    then show ?thesis using False f by (subst fcs_loop.simps) simp
  qed
qed

lemma fcs_returns_iff:
  fixes c :: "'a::linorder list"
  shows "fcs c n func st \<noteq> None \<longleftrightarrow> (\<exists>k. n \<le> card (set (outputs func st k)))"
proof
  assume "fcs c n func st \<noteq> None"
  then obtain s' st' where loop: "fcs_loop func n [] st = Some (s', st')"
    by (auto simp: fcs_def split: option.splits)
  from fcs_loop_partial [OF loop]
  obtain k where "length s' = n" "sorted_wrt (<) s'" "set s' = set (outputs func st k)"
    by auto
  then have "card (set (outputs func st k)) = n"
    by (metis distinct_card strict_sorted_iff)
  then show "\<exists>k. n \<le> card (set (outputs func st k))" by auto
next
  assume "\<exists>k. n \<le> card (set (outputs func st k))"
  then obtain k where "n \<le> card (set [] \<union> set (outputs func st k))" by auto
  then have "fcs_loop func n [] st \<noteq> None"
    by (intro fcs_loop_terminates) simp_all
  then show "fcs c n func st \<noteq> None"
    by (auto simp: fcs_def)
qed

text \<open>
  Claim C10. Whenever \<open>fcs c n func\<close> terminates, \<open>c\<close> holds exactly \<open>n\<close>
  pairwise distinct values in strictly increasing order, all of them outputs of
  \<open>func\<close>, and whatever \<open>c\<close> held before plays no part (any other initial contents
  \<open>c0\<close> give the same result). It terminates exactly when some finite run of calls of
  \<open>func\<close> yields at least \<open>n\<close> distinct values.
\<close>

theorem fcs_collects_sorted_distinct:
  fixes c c0 :: "'a::linorder list"
  shows "(fcs c n func st = Some (c', st') \<longrightarrow>
            length c' = n \<and> distinct c' \<and> sorted_wrt (<) c'
          \<and> (\<exists>k. set c' = set (outputs func st k))
          \<and> fcs c0 n func st = Some (c', st'))
       \<and> (fcs c n func st \<noteq> None \<longleftrightarrow> (\<exists>k. n \<le> card (set (outputs func st k))))"
proof (intro conjI impI)
  assume res: "fcs c n func st = Some (c', st')"
  then have loop: "fcs_loop func n [] st = Some (c', st')"
    by (simp add: fcs_def split: option.splits)
  from fcs_loop_partial [OF loop]
  have p: "length c' = n" "sorted_wrt (<) c'" "\<exists>k. set c' = set (outputs func st k)"
    by simp_all
  show "length c' = n" by (fact p(1))
  show "sorted_wrt (<) c'" by (fact p(2))
  show "distinct c'" using p(2) by (simp add: strict_sorted_iff)
  show "\<exists>k. set c' = set (outputs func st k)" by (fact p(3))
  show "fcs c0 n func st = Some (c', st')" using loop by (simp add: fcs_def)
next
  show "fcs c n func st \<noteq> None \<longleftrightarrow> (\<exists>k. n \<le> card (set (outputs func st k)))"
    by (rule fcs_returns_iff)
qed

theorem fcs_collects_sorted_distinct_witness:
  "fcs [9, 9 :: nat] 3 (\<lambda>i::nat. (i mod 3, i + 1)) 4 = Some ([0, 1, 2], 7)
   \<and> length [0, 1, 2 :: nat] = 3 \<and> distinct [0, 1, 2 :: nat] \<and> sorted_wrt (<) [0, 1, 2 :: nat]
   \<and> fcs [] 3 (\<lambda>i::nat. (i mod 3, i + 1)) 4 = Some ([0, 1, 2 :: nat], 7)"
  using fcs_collects_sorted_distinct
    [of "[9, 9]" 3 "\<lambda>i::nat. (i mod 3, i + 1)" 4 "[0, 1, 2]" 7 "[]"]
  by (simp add: fcs_def fcs_loop.simps set_insert_def)

text \<open>A callable with a single output never fills a set of two: the loop runs forever.\<close>

lemma fcs_diverges_example: "fcs c 2 (\<lambda>u::unit. (7 :: nat, u)) () = None"
proof -
  have "set (outputs (\<lambda>u::unit. (7 :: nat, u)) () k) \<subseteq> {7}" for k
    by (induction k) auto
  then have "card (set (outputs (\<lambda>u::unit. (7 :: nat, u)) () k)) \<le> 1" for k
    by (metis card_mono card_1_singleton_iff finite.emptyI finite_insert le_refl order_trans is_singletonI is_singleton_altdef)
  then have "\<not> (\<exists>k. 2 \<le> card (set (outputs (\<lambda>u::unit. (7 :: nat, u)) () k)))"
    by (metis numeral_le_one_iff order_trans semiring_norm(69))
  then show ?thesis using fcs_returns_iff [of c 2 "\<lambda>u::unit. (7 :: nat, u)" "()"] by blast
qed

subsection \<open>The shared engine and the generators\<close>

lemma toy_stdlib_contract: "uniform_int_contract toy_stdlib"
  unfolding uniform_int_contract_def
proof (intro allI impI)
  fix a b :: int and e :: nat
  assume "a \<le> b"
  then have pos: "0 < b - a + 1" by simp
  have "0 \<le> int e mod (b - a + 1)" using pos by simp
  moreover have "int e mod (b - a + 1) < b - a + 1" using pos by (rule pos_mod_bound)
  ultimately show "a \<le> fst (uniform_int_distribution toy_stdlib (a, b) e)
     \<and> fst (uniform_int_distribution toy_stdlib (a, b) e) \<le> b"
    by (simp add: toy_stdlib_def toy_uniform_int_def)
qed


text \<open>What one call of \<open>urng\<close> does to the process.\<close>

lemma urng_initialised: "eng p = Some e \<Longrightarrow> urng L p = (e, p)"
  by (simp add: urng_def)

lemma urng_eng: "eng (snd (urng L p)) = Some (fst (urng L p))"
  by (simp add: urng_def Let_def split: option.splits)

lemma urng_rd_calls:
  "rd_calls (snd (urng L p)) = rd_calls p + (if eng p = None then 1 else 0)"
  by (simp add: urng_def Let_def split: option.splits)

lemma urng_idem: "urng L (snd (urng L p)) = urng L p"
  by (simp add: urng_def Let_def split: option.splits)

lemma shared_engine_fresh:
  "eng p = None \<Longrightarrow> shared_engine L p = mt19937 L (random_device L (rd_calls p))"
  by (simp add: shared_engine_def urng_def Let_def)

text \<open>
  Every operation is one step of the shared engine through its own distribution, written
  back into the static.
\<close>

lemma step_through:
  "step L x p =
     (fst (through_distribution L x (shared_engine L p)),
      (snd (urng L p))\<lparr>eng := Some (snd (through_distribution L x (shared_engine L p)))\<rparr>)"
proof (cases x)
  case Urng_op
  have "(snd (urng L p))\<lparr>eng := Some (fst (urng L p))\<rparr> = snd (urng L p)"
    by (simp add: urng_def Let_def split: option.splits)
  then show ?thesis using Urng_op
    by (simp add: shared_engine_def case_prod_beta)
next
  case (Irand_op g)
  then show ?thesis by (simp add: Irand_call_def shared_engine_def case_prod_beta)
next
  case (Drand_op g)
  then show ?thesis by (simp add: Drand_call_def shared_engine_def case_prod_beta)
qed

lemma step_eng: "eng (snd (step L x p)) = Some (snd (through_distribution L x (shared_engine L p)))"
  by (simp add: step_through)

lemma step_rd_calls: "rd_calls (snd (step L x p)) = rd_calls p + (if eng p = None then 1 else 0)"
  by (simp add: step_through urng_rd_calls)

text \<open>
  The refinement: a run of the stateful facility, with its lazily initialised static, yields
  what the single stream yields from the engine that the first call of \<open>urng\<close> hands out.
\<close>

lemma run_single_stream:
  "run L ops p =
     (fst (single_stream L ops (shared_engine L p)),
      if ops = [] then p
      else \<lparr>eng = Some (snd (single_stream L ops (shared_engine L p))),
            rd_calls = rd_calls p + (if eng p = None then 1 else 0)\<rparr>)"
proof (induction ops arbitrary: p)
  case Nil
  show ?case by simp
next
  case (Cons x xs)
  let ?e = "shared_engine L p"
  let ?p1 = "snd (step L x p)"
  let ?e1 = "snd (through_distribution L x ?e)"
  have eng1: "eng ?p1 = Some ?e1" by (rule step_eng)
  then have sh1: "shared_engine L ?p1 = ?e1"
    by (simp add: shared_engine_def urng_initialised)
  have rd1: "rd_calls ?p1 = rd_calls p + (if eng p = None then 1 else 0)"
    by (rule step_rd_calls)
  have v: "fst (step L x p) = fst (through_distribution L x ?e)"
    by (simp add: step_through)
  have p1: "?p1 = \<lparr>eng = Some ?e1, rd_calls = rd_calls p + (if eng p = None then 1 else 0)\<rparr>"
    using eng1 rd1 by (cases ?p1) simp
  show ?case
  proof (cases "xs = []")
    case True
    then show ?thesis using v p1 by (simp add: case_prod_beta)
  next
    case False
    have "run L (x # xs) p = (fst (step L x p) # fst (run L xs ?p1), snd (run L xs ?p1))"
      by (simp add: case_prod_beta)
    also have "\<dots> = (fst (through_distribution L x ?e) # fst (single_stream L xs ?e1),
        \<lparr>eng = Some (snd (single_stream L xs ?e1)), rd_calls = rd_calls ?p1\<rparr>)"
      using False eng1 by (simp add: Cons.IH [of ?p1] sh1 v)
    finally show ?thesis using rd1 by (simp add: case_prod_beta)
  qed
qed


lemma length_run: "length (fst (run L ops p)) = length ops"
  by (induction ops arbitrary: p) (simp_all add: case_prod_beta)

lemma run_nth:
  "i < length ops \<Longrightarrow>
     fst (run L ops p) ! i = fst (step L (ops ! i) (snd (run L (take i ops) p)))"
proof (induction ops arbitrary: p i)
  case Nil
  then show ?case by simp
next
  case (Cons x xs)
  show ?case
  proof (cases i)
    case 0
    then show ?thesis by (simp add: case_prod_beta)
  next
    case (Suc j)
    then have "j < length xs" using Cons.prems by simp
    then show ?thesis using Suc by (simp add: case_prod_beta Cons.IH)
  qed
qed

lemma Irand_call_in_bounds:
  assumes "uniform_int_contract L" and "fst (m_dist g) \<le> snd (m_dist g)"
  shows "fst (m_dist g) \<le> fst (Irand_call L g p) \<and> fst (Irand_call L g p) \<le> snd (m_dist g)"
proof -
  obtain a b where ab: "m_dist g = (a, b)" by (cases "m_dist g")
  have "fst (Irand_call L g p) = fst (uniform_int_distribution L (a, b) (fst (urng L p)))"
    by (simp add: Irand_call_def ab case_prod_beta)
  moreover have "a \<le> b" using assms(2) ab by simp
  ultimately show ?thesis
    using assms(1) ab by (simp add: uniform_int_contract_def)
qed

text \<open>
  Claim C1. Let the library's integer distribution meet its contract. For an \<open>Irand\<close>
  constructed with \<open>imin \<le> imax\<close>, every value that its call operator returns lies in
  \<open>[imin, imax]\<close> (the degenerate case \<open>imin = imax\<close> included): from every state of
  the process, and at every position of every run, whatever calls of \<open>urng\<close> and draws
  of other generators come before it.
\<close>

theorem Irand_draws_within_bounds:
  assumes "uniform_int_contract L" and "imin \<le> imax" and "Irand_ctor L imin imax = Returned g"
  shows "imin \<le> fst (Irand_call L g p) \<and> fst (Irand_call L g p) \<le> imax
       \<and> (\<forall>i<length ops. ops ! i = Irand_op g \<longrightarrow>
            (\<exists>v. fst (run L ops p) ! i = Int_val v \<and> imin \<le> v \<and> v \<le> imax))"
proof -
  have g: "m_dist g = (imin, imax)"
    using assms(2,3) by (auto simp: Irand_ctor_def uniform_int_distribution_ctor_def)
  have one: "imin \<le> fst (Irand_call L g q) \<and> fst (Irand_call L g q) \<le> imax" for q
    using Irand_call_in_bounds [OF assms(1), of g q] g assms(2) by simp
  have "\<exists>v. fst (run L ops p) ! i = Int_val v \<and> imin \<le> v \<and> v \<le> imax"
    if "i < length ops" "ops ! i = Irand_op g" for i
  proof -
    let ?q = "snd (run L (take i ops) p)"
    have "fst (run L ops p) ! i = Int_val (fst (Irand_call L g ?q))"
      using run_nth [OF that(1), of L p] that(2) by (simp add: case_prod_beta)
    then show ?thesis using one [of ?q] by blast
  qed
  then show ?thesis using one [of p] by blast
qed

theorem Irand_draws_within_bounds_witness:
  "uniform_int_contract toy_stdlib \<and> (1::int) \<le> 6
   \<and> Irand_ctor toy_stdlib 1 6 = Returned \<lparr>m_dist = (1, 6)\<rparr>
   \<and> fst (Irand_call toy_stdlib \<lparr>m_dist = (1, 6)\<rparr> process_start) = 3
   \<and> 1 \<le> fst (Irand_call toy_stdlib \<lparr>m_dist = (1, 6)\<rparr> process_start)
   \<and> fst (Irand_call toy_stdlib \<lparr>m_dist = (1, 6)\<rparr> process_start) \<le> 6"
  using Irand_draws_within_bounds [OF toy_stdlib_contract, of 1 6 "\<lparr>m_dist = (1, 6)\<rparr>"
      process_start "[]"] toy_stdlib_contract
  by (simp add: Irand_ctor_def uniform_int_distribution_ctor_def Irand_call_def urng_def
      process_start_def toy_stdlib_def toy_uniform_int_def)

text \<open>
  Claim C5. Let the library's integer distribution meet its contract. The generator
  \<open>Irand(5, 5)\<close> returns exactly 5 at every call: from every state of the process and at
  every position of every run.
\<close>

theorem Irand_5_5_always_5:
  assumes "uniform_int_contract L" and "Irand_ctor L 5 5 = Returned g"
  shows "fst (Irand_call L g p) = 5
       \<and> (\<forall>i<length ops. ops ! i = Irand_op g \<longrightarrow> fst (run L ops p) ! i = Int_val 5)"
proof -
  have g: "m_dist g = (5, 5)"
    using assms(2) by (auto simp: Irand_ctor_def uniform_int_distribution_ctor_def)
  have one: "fst (Irand_call L g q) = 5" for q
    using Irand_call_in_bounds [OF assms(1), of g q] g by simp
  have "fst (run L ops p) ! i = Int_val 5" if "i < length ops" "ops ! i = Irand_op g" for i
    using run_nth [OF that(1), of L p] that(2) one by (simp add: case_prod_beta)
  then show ?thesis using one [of p] by blast
qed

theorem Irand_5_5_always_5_witness:
  "uniform_int_contract toy_stdlib \<and> Irand_ctor toy_stdlib 5 5 = Returned \<lparr>m_dist = (5, 5)\<rparr>
   \<and> fst (Irand_call toy_stdlib \<lparr>m_dist = (5, 5)\<rparr> \<lparr>eng = Some 77, rd_calls = 1\<rparr>) = 5
   \<and> fst (run toy_stdlib [Irand_op \<lparr>m_dist = (1, 6)\<rparr>, Irand_op \<lparr>m_dist = (5, 5)\<rparr>]
        \<lparr>eng = Some 77, rd_calls = 1\<rparr>) ! 1 = Int_val 5"
  using Irand_5_5_always_5 [OF toy_stdlib_contract, of "\<lparr>m_dist = (5, 5)\<rparr>"
      "\<lparr>eng = Some 77, rd_calls = 1\<rparr>"
      "[Irand_op \<lparr>m_dist = (1, 6)\<rparr>, Irand_op \<lparr>m_dist = (5, 5)\<rparr>]"] toy_stdlib_contract
  by (simp add: Irand_ctor_def uniform_int_distribution_ctor_def)








text \<open>
  Claim C3. For any generators (two or more, integer or real) and any interleaving of
  their draws and of calls of \<open>urng\<close>, the values of the run are those of the single
  stream of the one shared engine mapped through the distribution of each draw in turn;
  the engine left in the static is the end of that stream; and \<open>std::random_device\<close> is
  read once if the static was uninitialised and never otherwise, so that no draw seeds,
  reseeds or owns an engine.
\<close>

theorem interleaved_draws_single_stream:
  "fst (run L ops p) = fst (single_stream L ops (shared_engine L p))
   \<and> eng (snd (run L ops p)) =
       (if ops = [] then eng p else Some (snd (single_stream L ops (shared_engine L p))))
   \<and> rd_calls (snd (run L ops p)) = rd_calls p + (if ops \<noteq> [] \<and> eng p = None then 1 else 0)"
  by (simp add: run_single_stream)

theorem interleaved_draws_single_stream_witness:
  "fst (run toy_stdlib
      [Irand_op \<lparr>m_dist = (1, 6)\<rparr>, Drand_op \<lparr>m_dist_d = (0, 1)\<rparr>, Irand_op \<lparr>m_dist = (1, 6)\<rparr>]
      process_start)
    = [Int_val 3, Double_val (3 / 4), Int_val 3]
   \<and> snd (run toy_stdlib
      [Irand_op \<lparr>m_dist = (1, 6)\<rparr>, Drand_op \<lparr>m_dist_d = (0, 1)\<rparr>, Irand_op \<lparr>m_dist = (1, 6)\<rparr>]
      process_start)
    = \<lparr>eng = Some 253093, rd_calls = 1\<rparr>"
  using interleaved_draws_single_stream [of toy_stdlib
      "[Irand_op \<lparr>m_dist = (1, 6)\<rparr>, Drand_op \<lparr>m_dist_d = (0, 1)\<rparr>, Irand_op \<lparr>m_dist = (1, 6)\<rparr>]"
      process_start]
  by (simp add: shared_engine_def urng_def process_start_def toy_stdlib_def
      toy_uniform_int_def toy_uniform_real_def Irand_call_def Drand_call_def)

text \<open>
  Claim C4. \<open>urng\<close> hands out the same engine on every call: a second call returns what
  the first returned and leaves the process as it is. The engine is constructed on the
  first call, from the first value of \<open>std::random_device\<close>; after any non-empty run
  from the start of the process \<open>std::random_device\<close> has been read exactly once, and the
  static holds that one engine, advanced by the draws of the run and by nothing else; and
  once the static is initialised, \<open>urng\<close> returns it unchanged and no run reads
  \<open>std::random_device\<close> again.
\<close>

theorem urng_one_engine_seeded_once:
  "urng L (snd (urng L p)) = urng L p
   \<and> fst (urng L process_start) = mt19937 L (random_device L 0)
   \<and> rd_calls (snd (run L ops process_start)) = (if ops = [] then 0 else 1)
   \<and> eng (snd (run L ops process_start)) =
       (if ops = [] then None
        else Some (snd (single_stream L ops (mt19937 L (random_device L 0)))))
   \<and> (eng p = Some e \<longrightarrow> urng L p = (e, p) \<and> rd_calls (snd (run L ops p)) = rd_calls p)"
proof -
  have sh: "shared_engine L process_start = mt19937 L (random_device L 0)"
    by (simp add: shared_engine_fresh process_start_def)
  show ?thesis
    by (simp add: urng_idem run_single_stream sh urng_initialised)
      (simp add: process_start_def urng_def Let_def)
qed

theorem urng_one_engine_seeded_once_witness:
  "urng toy_stdlib process_start = (2024, \<lparr>eng = Some 2024, rd_calls = 1\<rparr>)
   \<and> urng toy_stdlib (snd (urng toy_stdlib process_start)) = (2024, \<lparr>eng = Some 2024, rd_calls = 1\<rparr>)
   \<and> eng \<lparr>eng = Some (2024::nat), rd_calls = 1\<rparr> = Some 2024
   \<and> rd_calls (snd (run toy_stdlib [Urng_op, Irand_op \<lparr>m_dist = (1, 6)\<rparr>, Urng_op]
        \<lparr>eng = Some 2024, rd_calls = 1\<rparr>)) = 1"
  using urng_one_engine_seeded_once [of toy_stdlib "\<lparr>eng = Some 2024, rd_calls = 1\<rparr>"
      "[Urng_op, Irand_op \<lparr>m_dist = (1, 6)\<rparr>, Urng_op]" 2024]
  by (simp add: urng_def process_start_def toy_stdlib_def)

subsection \<open>The file wrappers\<close>

text \<open>
  Claim C7 says that every file wrapper, \<open>get_str_from_file\<close> included, raises an error
  when the open fails. In the two earlier revisions of the header \<open>get_str_from_file\<close>
  ends the process instead: on a file that cannot be opened nothing is raised.
\<close>

theorem get_str_from_file_exit_not_raised:
  "i_fail (ifstream_ctor no_files ''missing.txt'' False)
   \<and> get_str_from_file_exit no_files ''missing.txt'' = Exited (''cannot open file'' @ newline) EXIT_FAILURE
   \<and> \<not> raised (get_str_from_file_exit no_files ''missing.txt'')"
  by (simp add: get_str_from_file_exit_def ifstream_ctor_def no_files_def raised_def)

text \<open>
  Claim C7, amended. Each of the four wrappers that return a stream (\<open>open_text_file\<close>,
  \<open>open_binary_file\<close>, \<open>create_text_file\<close>, \<open>create_binary_file\<close>) raises
  \<open>std::runtime_error\<close> when the open fails and returns the opened stream when it
  succeeds. \<open>get_str_from_file\<close> returns the text of the file, not a stream, when the
  open succeeds; when it fails, the revision of nutility.h raises the error of
  \<open>open_text_file\<close>, and the two earlier revisions write \<open>cannot open file\<close> to
  \<open>std::cerr\<close> and end the process with \<open>EXIT_FAILURE\<close>.
\<close>

theorem file_wrappers_outcomes:
  "open_text_file fs filename =
     (if i_fail (ifstream_ctor fs filename False)
      then Thrown (filename @ '' : cannot be opened!'' @ newline)
      else Returned (ifstream_ctor fs filename False))
   \<and> open_binary_file fs filename =
     (if i_fail (ifstream_ctor fs filename True)
      then Thrown (filename @ '' : cannot be opened!'' @ newline)
      else Returned (ifstream_ctor fs filename True))
   \<and> fst (create_text_file fs filename) =
     (if o_fail (fst (ofstream_ctor fs filename False))
      then Thrown (filename @ '': cannot be created!'' @ newline)
      else Returned (fst (ofstream_ctor fs filename False)))
   \<and> fst (create_binary_file fs filename) =
     (if o_fail (fst (ofstream_ctor fs filename True))
      then Thrown (filename @ '' : cannot be created!'' @ newline)
      else Returned (fst (ofstream_ctor fs filename True)))
   \<and> get_str_from_file fs filename =
     (if i_fail (ifstream_ctor fs filename False)
      then Thrown (filename @ '' : cannot be opened!'' @ newline)
      else Returned (i_rdbuf (ifstream_ctor fs filename False)))
   \<and> get_str_from_file_exit fs filename =
     (if i_fail (ifstream_ctor fs filename False)
      then Exited (''cannot open file'' @ newline) EXIT_FAILURE
      else Returned (i_rdbuf (ifstream_ctor fs filename False)))"
  by (simp add: open_text_file_def open_binary_file_def create_text_file_def
      create_binary_file_def get_str_from_file_def get_str_from_file_exit_def Let_def
      case_prod_beta)

theorem file_wrappers_outcomes_witness:
  "open_text_file (no_files\<lparr>contents := [''a.txt'' \<mapsto> ''hello'']\<rparr>) ''a.txt''
     = Returned \<lparr>i_fail = False, i_binary = False, i_rdbuf = ''hello''\<rparr>
   \<and> open_text_file no_files ''a.txt'' = Thrown (''a.txt : cannot be opened!'' @ newline)
   \<and> get_str_from_file (no_files\<lparr>contents := [''a.txt'' \<mapsto> ''hello'']\<rparr>) ''a.txt'' = Returned ''hello''
   \<and> get_str_from_file no_files ''a.txt'' = Thrown (''a.txt : cannot be opened!'' @ newline)"
  using file_wrappers_outcomes [of no_files "''a.txt''"]
    file_wrappers_outcomes [of "no_files\<lparr>contents := [''a.txt'' \<mapsto> ''hello'']\<rparr>" "''a.txt''"]
  by (simp add: ifstream_ctor_def no_files_def)


end
